theory Spec2Isabelle
  imports Main "HOL-Library.Word" "HOL-Library.Sublist"
begin

unbundle bit_operations_syntax

section \<open>The lock-free range queue of \<^verbatim>\<open>audio-decoder/queue.h\<close>\<close>

text \<open>
  \<^verbatim>\<open>template<typename T, uint32_t CAPACITY, typename INDEX_TYPE = uint32_t> class LockFreeQueue\<close>

  The element type \<^verbatim>\<open>T\<close> is the type variable \<open>'T\<close>, the unsigned index type
  \<^verbatim>\<open>INDEX_TYPE\<close> is \<open>'i word\<close> for any width \<open>'i\<close> (8 for \<^verbatim>\<open>uint8_t\<close>, 32 for the
  default \<^verbatim>\<open>uint32_t\<close>, 64 for \<^verbatim>\<open>uint64_t\<close>), and the template constant
  \<^verbatim>\<open>CAPACITY\<close> is a \<open>32 word\<close> that every member function takes as its first argument.
  The three data members are the fields of the record; \<open>buffer\<close> is the array
  \<^verbatim>\<open>T buffer[CAPACITY]\<close>, a list that holds \<open>unat CAPACITY\<close> elements.
\<close>

type_synonym uint32_t = "32 word"

record (overloaded) ('T, 'i) LockFreeQueue =
  buffer :: "'T list"
  writeCounter :: "'i word"
  readCounter :: "'i word"

text \<open>
  What C++ leaves undefined is a value of the model: the increment of the \<^verbatim>\<open>int32_t\<close>
  loop counter beyond \<^verbatim>\<open>INT32_MAX\<close>, an access to \<^verbatim>\<open>buffer\<close> outside its
  \<^verbatim>\<open>CAPACITY\<close> elements, and an access to the caller's array outside the elements the
  caller provides.
\<close>

datatype error = SignedOverflow | BufferOutOfBounds | ItemsOutOfBounds

definition INT32_MAX :: int where
  "INT32_MAX = 2147483647"

text \<open>\<^verbatim>\<open>static constexpr bool isPowerOfTwo(uint32_t n) { return (n & (n - 1)) == 0; }\<close>\<close>

definition isPowerOfTwo :: "uint32_t \<Rightarrow> bool" where
  "isPowerOfTwo n = ((n AND (n - 1)) = 0)"

text \<open>
  \<^verbatim>\<open>INDEX_TYPE size() const { return writeCounter - readCounter; }\<close>

  For an index type narrower than \<^verbatim>\<open>int\<close> the subtraction is done on \<^verbatim>\<open>int\<close> and the
  result converted back to \<^verbatim>\<open>INDEX_TYPE\<close> on return, which is the subtraction modulo
  \<open>2 ^ LENGTH('i)\<close> in every case.
\<close>

definition size_q :: "('T, 'i::len) LockFreeQueue \<Rightarrow> 'i word" where
  "size_q q = writeCounter q - readCounter q"

text \<open>
  \<^verbatim>\<open>INDEX_TYPE mask(INDEX_TYPE n) const { return static_cast<INDEX_TYPE>(n & (CAPACITY - 1)); }\<close>

  \<^verbatim>\<open>CAPACITY - 1\<close> is computed on \<^verbatim>\<open>uint32_t\<close> (it wraps to \<^verbatim>\<open>0xFFFFFFFF\<close> for capacity 0);
  the conjunction is computed at the wider of the two types and cast to the index type,
  which is the conjunction with \<^verbatim>\<open>CAPACITY - 1\<close> zero-extended or truncated to the index
  type.
\<close>

definition mask_q :: "uint32_t \<Rightarrow> 'i::len word \<Rightarrow> 'i word" where
  "mask_q CAPACITY n = n AND ucast (CAPACITY - 1)"

text \<open>
  The loop of \<^verbatim>\<open>pop_range\<close>:
  \<^verbatim>\<open>
  for (int32_t idx = 0; idx < length; ++idx) {
      items[idx] = buffer[mask(readCounter)];
      ++readCounter;
  }
  \<close>
  \<open>idx\<close> is the value of the \<^verbatim>\<open>int32_t\<close> counter. The comparison \<^verbatim>\<open>idx < length\<close>
  converts it to \<^verbatim>\<open>uint32_t\<close> (\<open>idx mod 2 ^ 32\<close>); \<^verbatim>\<open>++idx\<close> at \<^verbatim>\<open>INT32_MAX\<close> is a
  signed overflow.
\<close>

function pop_loop ::
  "uint32_t \<Rightarrow> ('T, 'i::len) LockFreeQueue \<Rightarrow> 'T list \<Rightarrow> uint32_t \<Rightarrow> int
     \<Rightarrow> error + (('T, 'i) LockFreeQueue \<times> 'T list)" where
  "pop_loop CAPACITY q items len idx =
     (if idx mod 2 ^ 32 < uint len then
        (if \<not> unat (mask_q CAPACITY (readCounter q)) < length (buffer q) then Inl BufferOutOfBounds
         else if \<not> (0 \<le> idx \<and> nat idx < length items) then Inl ItemsOutOfBounds
         else if INT32_MAX \<le> idx then Inl SignedOverflow
         else pop_loop CAPACITY
                (q\<lparr>readCounter := readCounter q + 1\<rparr>)
                (items[nat idx := buffer q ! unat (mask_q CAPACITY (readCounter q))])
                len (idx + 1))
      else Inr (q, items))"
  by pat_completeness auto
termination
  by (relation "measure (\<lambda>(C, q, items, len, idx). nat (INT32_MAX - idx))") auto

declare pop_loop.simps [simp del]

text \<open>
  \<^verbatim>\<open>
  bool pop_range(T *items, uint32_t length) {
      if (length > size()) { return false; }
      for (...) {...}
      return true;
  }
  \<close>
  The result is the returned flag, the queue and the caller's array after the call.
\<close>

definition pop_range ::
  "uint32_t \<Rightarrow> ('T, 'i::len) LockFreeQueue \<Rightarrow> 'T list \<Rightarrow> uint32_t
     \<Rightarrow> error + (bool \<times> ('T, 'i) LockFreeQueue \<times> 'T list)" where
  "pop_range CAPACITY q items len =
     (if unat len > unat (size_q q) then Inr (False, q, items)
      else case pop_loop CAPACITY q items len 0 of
             Inl e \<Rightarrow> Inl e
           | Inr (q', items') \<Rightarrow> Inr (True, q', items'))"

text \<open>
  The loop of \<^verbatim>\<open>push_range\<close>:
  \<^verbatim>\<open>
  for (int32_t idx = 0; idx < length; ++idx) {
      buffer[mask(writeCounter)] = items[idx];
      ++writeCounter;
  }
  \<close>
\<close>

function push_loop ::
  "uint32_t \<Rightarrow> ('T, 'i::len) LockFreeQueue \<Rightarrow> 'T list \<Rightarrow> uint32_t \<Rightarrow> int
     \<Rightarrow> error + ('T, 'i) LockFreeQueue" where
  "push_loop CAPACITY q items len idx =
     (if idx mod 2 ^ 32 < uint len then
        (if \<not> (0 \<le> idx \<and> nat idx < length items) then Inl ItemsOutOfBounds
         else if \<not> unat (mask_q CAPACITY (writeCounter q)) < length (buffer q) then Inl BufferOutOfBounds
         else if INT32_MAX \<le> idx then Inl SignedOverflow
         else push_loop CAPACITY
                (q\<lparr>buffer := (buffer q)[unat (mask_q CAPACITY (writeCounter q)) := items ! nat idx],
                   writeCounter := writeCounter q + 1\<rparr>)
                items len (idx + 1))
      else Inr q)"
  by pat_completeness auto
termination
  by (relation "measure (\<lambda>(C, q, items, len, idx). nat (INT32_MAX - idx))") auto

declare push_loop.simps [simp del]

text \<open>
  \<^verbatim>\<open>
  bool push_range(T *items, uint32_t length) {
      if (size() + length > CAPACITY) { return false; }
      for (...) {...}
      return true;
  }
  \<close>
  The sum \<^verbatim>\<open>size() + length\<close> is computed at the wider of \<^verbatim>\<open>INDEX_TYPE\<close> and
  \<^verbatim>\<open>uint32_t\<close> (an index type narrower than \<^verbatim>\<open>int\<close> is promoted first) and wraps
  around at that width. The caller's array is only read, so the result is the returned
  flag and the queue after the call.
\<close>

definition push_range ::
  "uint32_t \<Rightarrow> ('T, 'i::len) LockFreeQueue \<Rightarrow> 'T list \<Rightarrow> uint32_t
     \<Rightarrow> error + (bool \<times> ('T, 'i) LockFreeQueue)" where
  "push_range CAPACITY q items len =
     (if (unat (size_q q) + unat len) mod 2 ^ max 32 LENGTH('i) > unat CAPACITY
      then Inr (False, q)
      else case push_loop CAPACITY q items len 0 of
             Inl e \<Rightarrow> Inl e
           | Inr q' \<Rightarrow> Inr (True, q'))"

section \<open>Construction, logical contents and call sequences\<close>

text \<open>
  A queue as the constructor leaves it: both counters are 0
  (\<^verbatim>\<open>std::atomic<INDEX_TYPE> writeCounter{0}\<close>, \<^verbatim>\<open>readCounter{0}\<close>) and the array holds
  whatever its storage \<open>mem\<close> held, since \<^verbatim>\<open>buffer\<close> has no initialiser.
\<close>

definition new_queue :: "'T list \<Rightarrow> ('T, 'i::len) LockFreeQueue" where
  "new_queue mem = \<lparr>buffer = mem, writeCounter = 0, readCounter = 0\<rparr>"


text \<open>
  A client of the queue: a list of calls, run in order from a state. Beside the queue the
  run records what the successful pushes put in (the first \<open>length\<close> elements of the
  caller's array) and what the successful pops handed out (the first \<open>length\<close>
  elements of the caller's array after the call). A call whose behaviour is undefined ends
  the run with its error.
\<close>

datatype 'T call = Push "'T list" uint32_t | Pop "'T list" uint32_t

fun run_calls ::
  "uint32_t \<Rightarrow> ('T, 'i::len) LockFreeQueue \<times> 'T list \<times> 'T list \<Rightarrow> 'T call list
     \<Rightarrow> error + (('T, 'i) LockFreeQueue \<times> 'T list \<times> 'T list)" where
  "run_calls CAPACITY s [] = Inr s"
| "run_calls CAPACITY (q, pushed, popped) (Push items len # cs) =
     (case push_range CAPACITY q items len of
        Inl e \<Rightarrow> Inl e
      | Inr (ok, q') \<Rightarrow>
          run_calls CAPACITY (q', if ok then pushed @ take (unat len) items else pushed, popped) cs)"
| "run_calls CAPACITY (q, pushed, popped) (Pop items len # cs) =
     (case pop_range CAPACITY q items len of
        Inl e \<Rightarrow> Inl e
      | Inr (ok, q', items') \<Rightarrow>
          run_calls CAPACITY (q', pushed, if ok then popped @ take (unat len) items' else popped) cs)"

text \<open>
  The calls a caller may make without leaving defined behaviour: the array it passes holds
  at least \<open>length\<close> elements, and \<open>length\<close> does not exceed what the \<^verbatim>\<open>int32_t\<close>
  loop counter can count.
\<close>

fun defined_call :: "'T call \<Rightarrow> bool" where
  "defined_call (Push items len) = (uint len \<le> INT32_MAX \<and> unat len \<le> length items)"
| "defined_call (Pop items len) = (uint len \<le> INT32_MAX \<and> unat len \<le> length items)"


section \<open>The capacity check\<close>

text \<open>
  The check \<^verbatim>\<open>(n & (n - 1)) == 0\<close> holds for 0 and for the powers of two that fit 32 bits,
  and for nothing else.
\<close>

lemma nat_and_pred_zero:
  fixes n :: nat
  shows "0 < n \<Longrightarrow> n AND (n - 1) = 0 \<Longrightarrow> \<exists>k. n = 2 ^ k"
proof (induction n rule: less_induct)
  case (less n)
  have rec: "n AND (n - 1) = of_bool (odd n \<and> odd (n - 1)) + 2 * ((n div 2) AND ((n - 1) div 2))"
    by (rule and_rec)
  show ?case
  proof (cases "even n")
    case True
    then obtain m where m: "n = 2 * m" by (auto elim: evenE)
    with less.prems have m0: "0 < m" by simp
    have "(n - 1) div 2 = m - 1" using m m0 by simp
    with rec less.prems(2) m have "m AND (m - 1) = 0" by simp
    moreover have "m < n" using m m0 by simp
    ultimately obtain j where "m = 2 ^ j" using less.IH m0 by blast
    with m have "n = 2 ^ Suc j" by simp
    then show ?thesis by blast
  next
    case False
    then obtain m where m: "n = 2 * m + 1" by (auto elim: oddE)
    have "(n - 1) div 2 = m" "n div 2 = m" using m by simp_all
    with rec less.prems(2) have "m = 0" by simp
    with m have "n = 2 ^ 0" by simp
    then show ?thesis by blast
  qed
qed

lemma unat_2p:
  assumes "k < LENGTH('a)"
  shows "unat (2 ^ k :: 'a::len word) = 2 ^ k"
proof -
  have "(2::nat) ^ k < 2 ^ LENGTH('a)" using assms by simp
  then have "unat (of_nat (2 ^ k) :: 'a word) = 2 ^ k"
    by (simp only: unat_of_nat mod_less)
  then show ?thesis by simp
qed

lemma isPowerOfTwo_nonzero:
  assumes "isPowerOfTwo n" "n \<noteq> 0"
  shows "\<exists>k<32. n = 2 ^ k"
proof -
  have "unat (n AND (n - 1)) = unat n AND (unat n - 1)"
    using assms(2) by (simp add: unsigned_and_eq unat_minus_one)
  with assms have "unat n AND (unat n - 1) = 0" "0 < unat n"
    by (simp_all add: isPowerOfTwo_def unat_gt_0)
  then obtain k where k: "unat n = 2 ^ k" using nat_and_pred_zero by blast
  have "k < 32"
  proof (rule ccontr)
    assume "\<not> k < 32"
    then have "(2::nat) ^ 32 \<le> 2 ^ k" by (intro power_increasing) simp_all
    moreover have "unat n < 2 ^ 32" using unsigned_less [of n, where ?'a = nat] by simp
    ultimately show False using k by simp
  qed
  have "n = of_nat (unat n)" by simp
  also have "\<dots> = of_nat (2 ^ k)" by (simp only: k)
  also have "\<dots> = 2 ^ k" by simp
  finally have "n = 2 ^ k" .
  with \<open>k < 32\<close> show ?thesis by blast
qed

lemma isPowerOfTwo_pow: "isPowerOfTwo (2 ^ k)"
proof -
  have "(2 ^ k - 1 :: 32 word) = mask k" by (simp add: mask_eq_decr_exp)
  moreover have "(2 ^ k :: 32 word) AND mask k = 0"
    by (rule bit_word_eqI) (auto simp add: bit_simps)
  ultimately show ?thesis by (simp add: isPowerOfTwo_def)
qed

lemma isPowerOfTwo_iff: "isPowerOfTwo n \<longleftrightarrow> n = 0 \<or> (\<exists>k<32. n = 2 ^ k)"
  using isPowerOfTwo_nonzero isPowerOfTwo_pow by (auto simp add: isPowerOfTwo_def)


section \<open>Masking\<close>

lemma mask_q_less:
  fixes n :: "'i::len word"
  assumes "CAPACITY \<noteq> 0"
  shows "unat (mask_q CAPACITY n) < unat CAPACITY"
proof -
  have "mask_q CAPACITY n \<le> (ucast (CAPACITY - 1) :: 'i word)"
    unfolding mask_q_def by (rule word_and_le1)
  then have "unat (mask_q CAPACITY n) \<le> unat (ucast (CAPACITY - 1) :: 'i word)"
    by (simp add: word_le_nat_alt)
  also have "\<dots> \<le> unat (CAPACITY - 1)"
    by (simp add: unsigned_ucast_eq take_bit_nat_less_eq_self)
  also have "\<dots> < unat CAPACITY"
    using assms by (simp add: unat_minus_one unat_gt_0)
  finally show ?thesis .
qed

lemma mask_q_pow:
  fixes n :: "'i::len word"
  assumes "k < 32"
  shows "unat (mask_q (2 ^ k) n) = unat n mod 2 ^ k"
proof -
  have "(2 ^ k - 1 :: 32 word) = mask k" by (simp add: mask_eq_decr_exp)
  then have "mask_q (2 ^ k) n = n AND ucast (mask k :: 32 word)" by (simp add: mask_q_def)
  also have "\<dots> = take_bit k n"
    using assms by (intro bit_word_eqI) (auto simp add: bit_simps)
  finally have "unat (mask_q (2 ^ k) n) = take_bit k (unat n)"
    by (simp only: unsigned_take_bit_eq)
  then show ?thesis by (simp add: take_bit_eq_mod)
qed



section \<open>The copy loops\<close>

text \<open>
  One unfolding of each loop, the counters after a loop that returns, the conditions under
  which it returns, and the overflow of the loop counter for a length beyond \<^verbatim>\<open>INT32_MAX\<close>.
\<close>

lemma idx_mod:
  fixes len :: uint32_t
  assumes "0 \<le> idx" "idx \<le> uint len"
  shows "idx mod 2 ^ 32 = idx"
proof -
  have "uint len < 2 ^ 32" using uint_bounded [of len] by simp
  with assms show ?thesis by simp
qed

lemma pop_loop_Inr_step:
  assumes "pop_loop C q items len idx = Inr r" "idx mod 2 ^ 32 < uint len"
  shows "unat (mask_q C (readCounter q)) < length (buffer q)
     \<and> (0 \<le> idx \<and> nat idx < length items) \<and> \<not> INT32_MAX \<le> idx
     \<and> pop_loop C (q\<lparr>readCounter := readCounter q + 1\<rparr>)
           (items[nat idx := buffer q ! unat (mask_q C (readCounter q))]) len (idx + 1) = Inr r"
proof -
  have "pop_loop C q items len idx =
     (if \<not> unat (mask_q C (readCounter q)) < length (buffer q) then Inl BufferOutOfBounds
      else if \<not> (0 \<le> idx \<and> nat idx < length items) then Inl ItemsOutOfBounds
      else if INT32_MAX \<le> idx then Inl SignedOverflow
      else pop_loop C (q\<lparr>readCounter := readCounter q + 1\<rparr>)
             (items[nat idx := buffer q ! unat (mask_q C (readCounter q))]) len (idx + 1))"
    using assms(2) by (subst pop_loop.simps) simp
  with assms(1) show ?thesis by (simp split: if_splits)
qed

lemma pop_loop_exit:
  "\<not> idx mod 2 ^ 32 < uint len \<Longrightarrow> pop_loop C q items len idx = Inr (q, items)"
  by (subst pop_loop.simps) simp

lemma pop_loop_frame:
  "pop_loop C q items len idx = Inr (q', items') \<Longrightarrow> 0 \<le> idx \<Longrightarrow> idx \<le> uint len \<Longrightarrow>
     readCounter q' = readCounter q + of_int (uint len - idx) \<and> writeCounter q' = writeCounter q
     \<and> buffer q' = buffer q \<and> length items' = length items"
proof (induction C q items len idx rule: pop_loop.induct)
  case (1 C q items len idx)
  note m = idx_mod [OF "1.prems"(2,3)]
  show ?case
  proof (cases "idx < uint len")
    case True
    with m have c: "idx mod 2 ^ 32 < uint len" by simp
    note s = pop_loop_Inr_step [OF "1.prems"(1) c]
    from "1.IH" [OF c] s True "1.prems"(2)
    show ?thesis by simp
  next
    case False
    with m "1.prems" have "idx = uint len" "\<not> idx mod 2 ^ 32 < uint len" by simp_all
    with "1.prems"(1) show ?thesis by (simp add: pop_loop_exit)
  qed
qed

lemma pop_loop_total:
  "0 \<le> idx \<Longrightarrow> idx \<le> uint len \<Longrightarrow> uint len \<le> INT32_MAX \<Longrightarrow> unat len \<le> length items
     \<Longrightarrow> length (buffer q) = unat C \<Longrightarrow> (idx < uint len \<longrightarrow> C \<noteq> 0)
     \<Longrightarrow> \<exists>r. pop_loop C q items len idx = Inr r"
proof (induction C q items len idx rule: pop_loop.induct)
  case (1 C q items len idx)
  have lt: "uint len < 2 ^ 32" using uint_bounded [of len] by simp
  show ?case
  proof (cases "idx < uint len")
    case True
    with "1.prems" lt have c: "idx mod 2 ^ 32 < uint len" by simp
    from True "1.prems" have C0: "C \<noteq> 0" by simp
    have a: "unat (mask_q C (readCounter q)) < length (buffer q)"
      using mask_q_less [OF C0] "1.prems" by simp
    have b: "0 \<le> idx \<and> nat idx < length items"
    proof -
      have "uint len = int (unat len)" by simp
      with True "1.prems" show ?thesis by linarith
    qed
    have d: "\<not> INT32_MAX \<le> idx" using True "1.prems" by simp
    have "\<exists>r. pop_loop C (q\<lparr>readCounter := readCounter q + 1\<rparr>)
                (items[nat idx := buffer q ! unat (mask_q C (readCounter q))]) len (idx + 1) = Inr r"
      using "1.IH" [OF c _ _ d] a b True "1.prems" C0 by simp
    then show ?thesis
      using a b c d by (subst pop_loop.simps) simp
  next
    case False
    with "1.prems" lt have "\<not> idx mod 2 ^ 32 < uint len" by simp
    then show ?thesis
      by (subst pop_loop.simps) simp
  qed
qed

lemma pop_loop_overflow:
  "0 \<le> idx \<Longrightarrow> idx \<le> INT32_MAX \<Longrightarrow> INT32_MAX < uint len \<Longrightarrow> nat INT32_MAX < length items
     \<Longrightarrow> length (buffer q) = unat C \<Longrightarrow> C \<noteq> 0
     \<Longrightarrow> pop_loop C q items len idx = Inl SignedOverflow"
proof (induction C q items len idx rule: pop_loop.induct)
  case (1 C q items len idx)
  have lt: "uint len < 2 ^ 32" using uint_bounded [of len] by simp
  from "1.prems" lt have c: "idx mod 2 ^ 32 < uint len" by simp
  have a: "unat (mask_q C (readCounter q)) < length (buffer q)"
    using mask_q_less [of C] "1.prems" by simp
  have b: "0 \<le> idx \<and> nat idx < length items"
    using "1.prems" by simp
  show ?case
  proof (cases "INT32_MAX \<le> idx")
    case True
    then show ?thesis using a b c by (subst pop_loop.simps) simp
  next
    case False
    have "pop_loop C (q\<lparr>readCounter := readCounter q + 1\<rparr>)
                (items[nat idx := buffer q ! unat (mask_q C (readCounter q))]) len (idx + 1) = Inl SignedOverflow"
      using "1.IH" [OF c _ _ False] a b False "1.prems" by simp
    then show ?thesis using a b c False by (subst pop_loop.simps) simp
  qed
qed

lemma pop_loop_no_oob:
  "length (buffer q) = unat C \<Longrightarrow> C \<noteq> 0 \<Longrightarrow> pop_loop C q items len idx \<noteq> Inl BufferOutOfBounds"
proof (induction C q items len idx rule: pop_loop.induct)
  case (1 C q items len idx)
  have a: "unat (mask_q C (readCounter q)) < length (buffer q)"
    using mask_q_less [of C] "1.prems" by simp
  show ?case
  proof (cases "idx mod 2 ^ 32 < uint len")
    case True
    show ?thesis
    proof (cases "(0 \<le> idx \<and> nat idx < length items) \<and> \<not> INT32_MAX \<le> idx")
      case True
      with "1.IH" [OF \<open>idx mod 2 ^ 32 < uint len\<close>] a "1.prems"
      have "pop_loop C (q\<lparr>readCounter := readCounter q + 1\<rparr>)
              (items[nat idx := buffer q ! unat (mask_q C (readCounter q))]) len (idx + 1)
            \<noteq> Inl BufferOutOfBounds" by simp
      with True a \<open>idx mod 2 ^ 32 < uint len\<close> show ?thesis
        by (subst pop_loop.simps) simp
    next
      case False
      with a \<open>idx mod 2 ^ 32 < uint len\<close> show ?thesis
        by (subst pop_loop.simps) auto
    qed
  next
    case False
    then show ?thesis by (simp add: pop_loop_exit)
  qed
qed

lemma push_loop_Inr_step:
  assumes "push_loop C q items len idx = Inr r" "idx mod 2 ^ 32 < uint len"
  shows "(0 \<le> idx \<and> nat idx < length items)
     \<and> unat (mask_q C (writeCounter q)) < length (buffer q) \<and> \<not> INT32_MAX \<le> idx
     \<and> push_loop C
           (q\<lparr>buffer := (buffer q)[unat (mask_q C (writeCounter q)) := items ! nat idx],
              writeCounter := writeCounter q + 1\<rparr>) items len (idx + 1) = Inr r"
proof -
  have "push_loop C q items len idx =
     (if \<not> (0 \<le> idx \<and> nat idx < length items) then Inl ItemsOutOfBounds
      else if \<not> unat (mask_q C (writeCounter q)) < length (buffer q) then Inl BufferOutOfBounds
      else if INT32_MAX \<le> idx then Inl SignedOverflow
      else push_loop C
             (q\<lparr>buffer := (buffer q)[unat (mask_q C (writeCounter q)) := items ! nat idx],
                writeCounter := writeCounter q + 1\<rparr>) items len (idx + 1))"
    using assms(2) by (subst push_loop.simps) simp
  with assms(1) show ?thesis by (simp split: if_splits)
qed

lemma push_loop_exit:
  "\<not> idx mod 2 ^ 32 < uint len \<Longrightarrow> push_loop C q items len idx = Inr q"
  by (subst push_loop.simps) simp

lemma push_loop_frame:
  "push_loop C q items len idx = Inr q' \<Longrightarrow> 0 \<le> idx \<Longrightarrow> idx \<le> uint len \<Longrightarrow>
     writeCounter q' = writeCounter q + of_int (uint len - idx) \<and> readCounter q' = readCounter q
     \<and> length (buffer q') = length (buffer q)"
proof (induction C q items len idx rule: push_loop.induct)
  case (1 C q items len idx)
  note m = idx_mod [OF "1.prems"(2,3)]
  show ?case
  proof (cases "idx < uint len")
    case True
    with m have c: "idx mod 2 ^ 32 < uint len" by simp
    note s = push_loop_Inr_step [OF "1.prems"(1) c]
    from "1.IH" [OF c] s True "1.prems"(2)
    show ?thesis by simp
  next
    case False
    with m "1.prems" have "idx = uint len" "\<not> idx mod 2 ^ 32 < uint len" by simp_all
    with "1.prems"(1) show ?thesis by (simp add: push_loop_exit)
  qed
qed


lemma push_loop_total:
  "0 \<le> idx \<Longrightarrow> idx \<le> uint len \<Longrightarrow> uint len \<le> INT32_MAX \<Longrightarrow> unat len \<le> length items
     \<Longrightarrow> length (buffer q) = unat C \<Longrightarrow> (idx < uint len \<longrightarrow> C \<noteq> 0)
     \<Longrightarrow> \<exists>r. push_loop C q items len idx = Inr r"
proof (induction C q items len idx rule: push_loop.induct)
  case (1 C q items len idx)
  note m = idx_mod [OF "1.prems"(1,2)]
  show ?case
  proof (cases "idx < uint len")
    case True
    with m have c: "idx mod 2 ^ 32 < uint len" by simp
    from True "1.prems" have C0: "C \<noteq> 0" by simp
    have a: "unat (mask_q C (writeCounter q)) < length (buffer q)"
      using mask_q_less [OF C0] "1.prems" by simp
    have b: "0 \<le> idx \<and> nat idx < length items"
    proof -
      have "uint len = int (unat len)" by simp
      with True "1.prems" show ?thesis by linarith
    qed
    have d: "\<not> INT32_MAX \<le> idx" using True "1.prems" by simp
    have "\<exists>r. push_loop C
           (q\<lparr>buffer := (buffer q)[unat (mask_q C (writeCounter q)) := items ! nat idx],
              writeCounter := writeCounter q + 1\<rparr>) items len (idx + 1) = Inr r"
      using "1.IH" [OF c _ _ d] a b True "1.prems" C0 by simp
    then show ?thesis
      using a b c d by (subst push_loop.simps) simp
  next
    case False
    with m have "\<not> idx mod 2 ^ 32 < uint len" by simp
    then show ?thesis by (simp add: push_loop_exit)
  qed
qed

lemma push_loop_overflow:
  "0 \<le> idx \<Longrightarrow> idx \<le> INT32_MAX \<Longrightarrow> INT32_MAX < uint len \<Longrightarrow> nat INT32_MAX < length items
     \<Longrightarrow> length (buffer q) = unat C \<Longrightarrow> C \<noteq> 0
     \<Longrightarrow> push_loop C q items len idx = Inl SignedOverflow"
proof (induction C q items len idx rule: push_loop.induct)
  case (1 C q items len idx)
  have "idx \<le> uint len" using "1.prems" by simp
  from idx_mod [OF "1.prems"(1) this] "1.prems" have c: "idx mod 2 ^ 32 < uint len" by simp
  have a: "unat (mask_q C (writeCounter q)) < length (buffer q)"
    using mask_q_less [of C] "1.prems" by simp
  have b: "0 \<le> idx \<and> nat idx < length items"
    using "1.prems" by simp
  show ?case
  proof (cases "INT32_MAX \<le> idx")
    case True
    then show ?thesis using a b c by (subst push_loop.simps) simp
  next
    case False
    have "push_loop C
           (q\<lparr>buffer := (buffer q)[unat (mask_q C (writeCounter q)) := items ! nat idx],
              writeCounter := writeCounter q + 1\<rparr>) items len (idx + 1) = Inl SignedOverflow"
      using "1.IH" [OF c _ _ False] a b False "1.prems" by simp
    then show ?thesis using a b c False by (subst push_loop.simps) simp
  qed
qed

lemma push_loop_no_oob:
  "length (buffer q) = unat C \<Longrightarrow> C \<noteq> 0 \<Longrightarrow> push_loop C q items len idx \<noteq> Inl BufferOutOfBounds"
proof (induction C q items len idx rule: push_loop.induct)
  case (1 C q items len idx)
  have a: "unat (mask_q C (writeCounter q)) < length (buffer q)"
    using mask_q_less [of C] "1.prems" by simp
  show ?case
  proof (cases "idx mod 2 ^ 32 < uint len")
    case True
    show ?thesis
    proof (cases "(0 \<le> idx \<and> nat idx < length items) \<and> \<not> INT32_MAX \<le> idx")
      case True
      with "1.IH" [OF \<open>idx mod 2 ^ 32 < uint len\<close>] a "1.prems"
      have "push_loop C
           (q\<lparr>buffer := (buffer q)[unat (mask_q C (writeCounter q)) := items ! nat idx],
              writeCounter := writeCounter q + 1\<rparr>) items len (idx + 1)
            \<noteq> Inl BufferOutOfBounds" by simp
      with True a \<open>idx mod 2 ^ 32 < uint len\<close> show ?thesis
        by (subst push_loop.simps) simp
    next
      case False
      with a \<open>idx mod 2 ^ 32 < uint len\<close> show ?thesis
        by (subst push_loop.simps) auto
    qed
  next
    case False
    then show ?thesis by (simp add: push_loop_exit)
  qed
qed


section \<open>The elements in flight\<close>



lemma size_new_queue: "size_q (new_queue mem) = 0"
  by (simp add: new_queue_def size_q_def)






section \<open>The two range calls\<close>

lemma unat_ucast_le: "unat (ucast (len :: 32 word) :: 'i::len word) = unat len mod 2 ^ LENGTH('i)"
  by (simp add: unsigned_ucast_eq take_bit_eq_mod)

lemma push_range_Inr:
  fixes q :: "('T, 'i::len) LockFreeQueue"
  assumes "push_range C q items len = Inr (ok, q')"
  shows "if ok then (unat (size_q q) + unat len) mod 2 ^ max 32 LENGTH('i) \<le> unat C
                 \<and> push_loop C q items len 0 = Inr q'
         else (unat (size_q q) + unat len) mod 2 ^ max 32 LENGTH('i) > unat C \<and> q' = q"
  using assms unfolding push_range_def
  by (auto split: if_splits sum.splits)

lemma pop_range_Inr:
  assumes "pop_range C q items len = Inr (ok, q', items')"
  shows "if ok then unat len \<le> unat (size_q q) \<and> pop_loop C q items len 0 = Inr (q', items')
         else unat len > unat (size_q q) \<and> q' = q \<and> items' = items"
  using assms unfolding pop_range_def
  by (auto split: if_splits sum.splits)

lemma push_range_False:
  "push_range C q items len = Inr (False, q') \<Longrightarrow> q' = q"
  using push_range_Inr [of C q items len False q'] by simp

lemma pop_range_False:
  "pop_range C q items len = Inr (False, q', items') \<Longrightarrow> q' = q \<and> items' = items"
  using pop_range_Inr [of C q items len False q' items'] by simp

lemma push_range_frame:
  assumes "push_range C q items len = Inr (True, q')"
  shows "writeCounter q' = writeCounter q + ucast len \<and> readCounter q' = readCounter q
     \<and> length (buffer q') = length (buffer q)"
  using push_range_Inr [OF assms] push_loop_frame [of C q items len 0 q'] by simp

lemma pop_range_frame:
  assumes "pop_range C q items len = Inr (True, q', items')"
  shows "readCounter q' = readCounter q + ucast len \<and> writeCounter q' = writeCounter q
     \<and> buffer q' = buffer q \<and> length items' = length items"
  using pop_range_Inr [OF assms] pop_loop_frame [of C q items len 0 q' items'] by simp

lemma push_range_size:
  fixes q :: "('T, 'i::len) LockFreeQueue"
  assumes "push_range C q items len = Inr (True, q')"
  shows "unat (size_q q') = (unat (size_q q) + unat len) mod 2 ^ LENGTH('i)"
    and "unat (size_q q') \<le> unat C"
proof -
  have "size_q q' = size_q q + ucast len"
    using push_range_frame [OF assms] by (simp add: size_q_def)
  then show eq: "unat (size_q q') = (unat (size_q q) + unat len) mod 2 ^ LENGTH('i)"
    by (simp add: unat_word_ariths unat_ucast_le mod_simps)
  have "(2::nat) ^ LENGTH('i) dvd 2 ^ max 32 LENGTH('i)"
    by (simp add: le_imp_power_dvd)
  then have "(unat (size_q q) + unat len) mod 2 ^ LENGTH('i)
      = (unat (size_q q) + unat len) mod 2 ^ max 32 LENGTH('i) mod 2 ^ LENGTH('i)"
    by (simp add: mod_mod_cancel)
  also have "\<dots> \<le> (unat (size_q q) + unat len) mod 2 ^ max 32 LENGTH('i)"
    by (rule mod_less_eq_dividend)
  also have "\<dots> \<le> unat C"
    using push_range_Inr [OF assms] by simp
  finally show "unat (size_q q') \<le> unat C" using eq by simp
qed

lemma pop_range_size:
  fixes q :: "('T, 'i::len) LockFreeQueue"
  assumes "pop_range C q items len = Inr (True, q', items')"
  shows "unat (size_q q') = unat (size_q q) - unat len"
proof -
  have le: "unat len \<le> unat (size_q q)" using pop_range_Inr [OF assms] by simp
  have "unat (size_q q) < 2 ^ LENGTH('i)" by simp
  with le have "unat len < 2 ^ LENGTH('i)" by (rule le_less_trans)
  then have u: "unat (ucast len :: 'i word) = unat len"
    by (simp add: unat_ucast_le)
  have "size_q q' = size_q q - ucast len"
    using pop_range_frame [OF assms] by (simp add: size_q_def)
  moreover have "ucast len \<le> size_q q" using le u by (simp add: word_le_nat_alt)
  ultimately show ?thesis using u by (simp add: unat_sub)
qed

lemma push_range_no_oob:
  "length (buffer q) = unat C \<Longrightarrow> C \<noteq> 0 \<Longrightarrow> push_range C q items len \<noteq> Inl BufferOutOfBounds"
  using push_loop_no_oob [of q C items len 0]
  by (auto simp add: push_range_def split: sum.splits)

lemma pop_range_no_oob:
  "length (buffer q) = unat C \<Longrightarrow> C \<noteq> 0 \<Longrightarrow> pop_range C q items len \<noteq> Inl BufferOutOfBounds"
  using pop_loop_no_oob [of q C items len 0]
  by (auto simp add: pop_range_def split: sum.splits)



lemma push_range_total:
  fixes q :: "('T, 'i::len) LockFreeQueue"
  assumes wf: "length (buffer q) = unat C" and sz: "unat (size_q q) \<le> unat C"
    and len: "uint len \<le> INT32_MAX" "unat len \<le> length items"
  shows "\<exists>ok q'. push_range C q items len = Inr (ok, q')"
proof (cases "(unat (size_q q) + unat len) mod 2 ^ max 32 LENGTH('i) > unat C")
  case True
  then have "push_range C q items len = Inr (False, q)" by (simp add: push_range_def)
  then show ?thesis by blast
next
  case False
  have "0 < uint len \<longrightarrow> C \<noteq> 0"
  proof (intro impI notI)
    assume "0 < uint len" "C = 0"
    with sz False have "unat len mod 2 ^ max 32 LENGTH('i) = 0" by simp
    moreover have "unat len < 2 ^ 32" using unsigned_less [of len, where ?'a = nat] by simp
    moreover have "(2::nat) ^ 32 \<le> 2 ^ max 32 LENGTH('i)" by (intro power_increasing) simp_all
    ultimately have "unat len = 0" by simp
    with \<open>0 < uint len\<close> show False by (simp add: unat_eq_0)
  qed
  with push_loop_total [OF _ _ len wf, of 0] obtain r where "push_loop C q items len 0 = Inr r"
    by auto
  with False have "push_range C q items len = Inr (True, r)" by (simp add: push_range_def)
  then show ?thesis by blast
qed

lemma pop_range_total:
  fixes q :: "('T, 'i::len) LockFreeQueue"
  assumes wf: "length (buffer q) = unat C" and sz: "unat (size_q q) \<le> unat C"
    and len: "uint len \<le> INT32_MAX" "unat len \<le> length items"
  shows "\<exists>ok q' items'. pop_range C q items len = Inr (ok, q', items')"
proof (cases "unat len > unat (size_q q)")
  case True
  then have "pop_range C q items len = Inr (False, q, items)" by (simp add: pop_range_def)
  then show ?thesis by blast
next
  case False
  have "0 < uint len \<longrightarrow> C \<noteq> 0"
  proof (intro impI notI)
    assume "0 < uint len" "C = 0"
    with sz False have "unat len = 0" by simp
    with \<open>0 < uint len\<close> show False by (simp add: unat_eq_0)
  qed
  with pop_loop_total [OF _ _ len wf, of 0] obtain r where "pop_loop C q items len 0 = Inr r"
    by auto
  with False have "pop_range C q items len = Inr (True, fst r, snd r)"
    by (cases r) (simp add: pop_range_def)
  then show ?thesis by blast
qed




section \<open>Sequences of calls\<close>

lemma replicate_numeral: "replicate (numeral k) x = x # replicate (pred_numeral k) x"
  by (simp add: numeral_eq_Suc)

lemma run_calls_size:
  "run_calls C (q, pushed, popped) cs = Inr (q', pushed', popped') \<Longrightarrow>
     unat (size_q q) \<le> unat C \<Longrightarrow> unat (size_q q') \<le> unat C"
proof (induction cs arbitrary: q pushed popped)
  case Nil
  then show ?case by simp
next
  case (Cons c cs)
  show ?case
  proof (cases c)
    case (Push items len)
    with Cons.prems(1) obtain ok q1 where
      p: "push_range C q items len = Inr (ok, q1)"
      and r: "run_calls C (q1, if ok then pushed @ take (unat len) items else pushed, popped) cs
                = Inr (q', pushed', popped')"
      by (auto split: sum.splits)
    have "unat (size_q q1) \<le> unat C"
    proof (cases ok)
      case True
      with p show ?thesis by (auto intro: push_range_size(2))
    next
      case False
      with p Cons.prems(2) show ?thesis by (auto dest: push_range_False)
    qed
    with Cons.IH [OF r] show ?thesis .
  next
    case (Pop items len)
    with Cons.prems(1) obtain ok q1 items1 where
      p: "pop_range C q items len = Inr (ok, q1, items1)"
      and r: "run_calls C (q1, pushed, if ok then popped @ take (unat len) items1 else popped) cs
                = Inr (q', pushed', popped')"
      by (auto split: sum.splits)
    have "unat (size_q q1) \<le> unat C"
    proof (cases ok)
      case True
      with p Cons.prems(2) show ?thesis by (simp add: pop_range_size)
    next
      case False
      with p Cons.prems(2) show ?thesis by (auto dest: pop_range_False)
    qed
    with Cons.IH [OF r] show ?thesis .
  qed
qed


lemma run_calls_total:
  fixes q :: "('T, 'i::len) LockFreeQueue"
  shows "length (buffer q) = unat C \<Longrightarrow> unat (size_q q) \<le> unat C \<Longrightarrow> list_all defined_call cs
     \<Longrightarrow> \<exists>s. run_calls C (q, pushed, popped) cs = Inr s"
proof (induction cs arbitrary: q pushed popped)
  case Nil
  then show ?case by simp
next
  case (Cons c cs)
  from Cons.prems(3) have dc: "defined_call c" and dcs: "list_all defined_call cs" by simp_all
  show ?case
  proof (cases c)
    case (Push items len)
    with dc have len: "uint len \<le> INT32_MAX" "unat len \<le> length items" by simp_all
    from push_range_total [OF Cons.prems(1,2) len] obtain ok q1 where
      p: "push_range C q items len = Inr (ok, q1)" by blast
    have "length (buffer q1) = unat C \<and> unat (size_q q1) \<le> unat C"
    proof (cases ok)
      case True
      with p push_range_frame [of C q items len q1] push_range_size(2) [of C q items len q1] Cons.prems(1)
      show ?thesis by simp
    next
      case False
      with p Cons.prems(1,2) show ?thesis by (auto dest: push_range_False)
    qed
    then have "\<exists>s. run_calls C (q1, if ok then pushed @ take (unat len) items else pushed, popped) cs = Inr s"
      using dcs by (intro Cons.IH) simp_all
    with p Push show ?thesis by simp
  next
    case (Pop items len)
    with dc have len: "uint len \<le> INT32_MAX" "unat len \<le> length items" by simp_all
    from pop_range_total [OF Cons.prems(1,2) len] obtain ok q1 items1 where
      p: "pop_range C q items len = Inr (ok, q1, items1)" by blast
    have "length (buffer q1) = unat C \<and> unat (size_q q1) \<le> unat C"
    proof (cases ok)
      case True
      with p pop_range_frame [of C q items len q1 items1] pop_range_size [of C q items len q1 items1]
        Cons.prems(1,2)
      show ?thesis by simp
    next
      case False
      with p Cons.prems(1,2) show ?thesis by (auto dest: pop_range_False)
    qed
    then have "\<exists>s. run_calls C (q1, pushed, if ok then popped @ take (unat len) items1 else popped) cs = Inr s"
      using dcs by (intro Cons.IH) simp_all
    with p Pop show ?thesis by simp
  qed
qed


section \<open>The properties of the specification\<close>

text \<open>
  C1. From a freshly constructed queue, after any sequence of \<open>push_range\<close> and
  \<open>pop_range\<close> calls the occupancy \<open>size()\<close> lies between 0 and \<open>CAPACITY\<close>, for
  every width of the index type and so across every wrap of the two counters. A prefix
  of a sequence of calls is a sequence of calls, so this is the occupancy after every
  call. A sequence of calls that each stay within defined behaviour does reach a state.
\<close>

theorem occupancy_within_capacity:
  fixes mem :: "'T list" and q :: "('T, 'i::len) LockFreeQueue"
  shows "(run_calls CAPACITY (new_queue mem, [], []) cs = Inr (q, pushed, popped)
            \<longrightarrow> 0 \<le> unat (size_q q) \<and> unat (size_q q) \<le> unat CAPACITY)
     \<and> (length mem = unat CAPACITY \<and> list_all defined_call cs
            \<longrightarrow> (\<exists>q' :: ('T, 'i) LockFreeQueue. \<exists>pushed' popped'.
                   run_calls CAPACITY (new_queue mem, [], []) cs = Inr (q', pushed', popped')))"
proof (intro conjI impI)
  assume "run_calls CAPACITY (new_queue mem, [], []) cs = Inr (q, pushed, popped)"
  moreover have "unat (size_q (new_queue mem :: ('T, 'i) LockFreeQueue)) \<le> unat CAPACITY"
    by (simp add: size_new_queue)
  ultimately show "unat (size_q q) \<le> unat CAPACITY" by (rule run_calls_size)
next
  assume a: "length mem = unat CAPACITY \<and> list_all defined_call cs"
  have "\<exists>s. run_calls CAPACITY (new_queue mem :: ('T, 'i) LockFreeQueue, [], []) cs = Inr s"
    using a by (intro run_calls_total) (simp_all add: size_new_queue, simp add: new_queue_def)
  then show "\<exists>q' :: ('T, 'i) LockFreeQueue. \<exists>pushed' popped'.
                   run_calls CAPACITY (new_queue mem, [], []) cs = Inr (q', pushed', popped')"
    by auto
qed simp

text \<open>
  An 8-bit index type and capacity 8: 38 rounds of pushing and popping 8 elements move
  both counters past 255 (304 elements, the counters stand at 48), and three more elements
  are pushed.
\<close>

theorem occupancy_within_capacity_witness:
  "run_calls 8 (new_queue [0, 0, 0, 0, 0, 0, 0, 0 :: nat] :: (nat, 8) LockFreeQueue, [], [])
      (concat (replicate 38 [Push [1, 2, 3, 4, 5, 6, 7, 8] 8, Pop [0, 0, 0, 0, 0, 0, 0, 0] 8])
         @ [Push [9, 10, 11] 3])
   = Inr (\<lparr>buffer = [9, 10, 11, 4, 5, 6, 7, 8], writeCounter = 51, readCounter = 48\<rparr>,
          concat (replicate 38 [1, 2, 3, 4, 5, 6, 7, 8]) @ [9, 10, 11],
          concat (replicate 38 [1, 2, 3, 4, 5, 6, 7, 8]))
   \<and> unat (size_q \<lparr>buffer = [9, 10, 11, 4, 5, 6, 7, 8 :: nat], writeCounter = 51 :: 8 word,
                     readCounter = 48\<rparr>) \<le> unat (8 :: uint32_t)"
proof -
  have run: "run_calls 8 (new_queue [0, 0, 0, 0, 0, 0, 0, 0 :: nat] :: (nat, 8) LockFreeQueue, [], [])
      (concat (replicate 38 [Push [1, 2, 3, 4, 5, 6, 7, 8] 8, Pop [0, 0, 0, 0, 0, 0, 0, 0] 8])
         @ [Push [9, 10, 11] 3])
   = Inr (\<lparr>buffer = [9, 10, 11, 4, 5, 6, 7, 8], writeCounter = 51, readCounter = 48\<rparr>,
          concat (replicate 38 [1, 2, 3, 4, 5, 6, 7, 8]) @ [9, 10, 11],
          concat (replicate 38 [1, 2, 3, 4, 5, 6, 7, 8]))"
    by (simp add: push_range_def pop_range_def push_loop.simps pop_loop.simps size_q_def mask_q_def
        INT32_MAX_def new_queue_def replicate_numeral)
  from occupancy_within_capacity [THEN conjunct1, rule_format, OF run] run
  show ?thesis by simp
qed

text \<open>
  C2. The specification has \<open>push_range\<close> return false exactly when \<open>size() + length\<close>, computed
  without wrap-around, exceeds \<open>CAPACITY\<close>. The code computes the sum on \<^verbatim>\<open>uint32_t\<close>.
  With capacity 8, the default index type and one element queued (the state after
  pushing one element into a fresh queue), a push of
  \<^verbatim>\<open>0xFFFFFFFF\<close> elements has the exact sum \<open>2 ^ 32\<close>, the computed sum 0, is not
  refused, and runs the copy loop until its \<^verbatim>\<open>int32_t\<close> counter overflows.
\<close>

theorem push_range_capacity_sum_wraps:
  "push_range 8 (new_queue [0, 0, 0, 0, 0, 0, 0, 0 :: nat] :: (nat, 32) LockFreeQueue) [7] 1
     = Inr (True, \<lparr>buffer = [7, 0, 0, 0, 0, 0, 0, 0], writeCounter = 1, readCounter = 0\<rparr>)
   \<and> unat (8 :: uint32_t)
     < unat (size_q \<lparr>buffer = [7, 0, 0, 0, 0, 0, 0, 0 :: nat], writeCounter = 1 :: 32 word, readCounter = 0\<rparr>)
       + unat (4294967295 :: uint32_t)
   \<and> push_range 8 \<lparr>buffer = [7, 0, 0, 0, 0, 0, 0, 0 :: nat], writeCounter = 1 :: 32 word, readCounter = 0\<rparr>
        (replicate 4294967295 9) 4294967295 = Inl SignedOverflow"
proof -
  have "push_loop 8 \<lparr>buffer = [7, 0, 0, 0, 0, 0, 0, 0 :: nat], writeCounter = 1 :: 32 word, readCounter = 0\<rparr>
        (replicate 4294967295 9) 4294967295 0 = Inl SignedOverflow"
    by (rule push_loop_overflow) (simp_all add: INT32_MAX_def)
  then have "push_range 8 \<lparr>buffer = [7, 0, 0, 0, 0, 0, 0, 0 :: nat], writeCounter = 1 :: 32 word, readCounter = 0\<rparr>
        (replicate 4294967295 9) 4294967295 = Inl SignedOverflow"
    by (simp add: push_range_def size_q_def)
  moreover have "push_range 8 (new_queue [0, 0, 0, 0, 0, 0, 0, 0 :: nat] :: (nat, 32) LockFreeQueue) [7] 1
     = Inr (True, \<lparr>buffer = [7, 0, 0, 0, 0, 0, 0, 0], writeCounter = 1, readCounter = 0\<rparr>)"
    by (simp add: push_range_def push_loop.simps size_q_def mask_q_def INT32_MAX_def new_queue_def)
  ultimately show ?thesis by (simp add: size_q_def)
qed

text \<open>
  What the code does decide: a push is refused exactly when the sum as computed exceeds
  the capacity, a refused push changes nothing, and the computed sum is the exact one
  whenever the exact one fits the width of the computation. The boundary case of the
  specification holds: capacity 8, 8 elements pushed into an empty queue, one more refused.
\<close>

lemma push_range_refused_iff:
  fixes q :: "('T, 'i::len) LockFreeQueue"
  shows "(\<exists>q'. push_range CAPACITY q items len = Inr (False, q'))
     \<longleftrightarrow> unat CAPACITY < (unat (size_q q) + unat len) mod 2 ^ max 32 LENGTH('i)"
  by (auto simp add: push_range_def split: sum.splits)

lemma push_range_refused_unchanged:
  "push_range CAPACITY q items len = Inr (False, q') \<Longrightarrow> q' = q"
  by (rule push_range_False)

lemma push_range_refused_exact:
  fixes q :: "('T, 'i::len) LockFreeQueue"
  assumes "unat (size_q q) + unat len < 2 ^ max 32 LENGTH('i)"
  shows "(\<exists>q'. push_range CAPACITY q items len = Inr (False, q'))
     \<longleftrightarrow> unat CAPACITY < unat (size_q q) + unat len"
  using assms by (simp add: push_range_refused_iff)

lemma capacity_boundary:
  "push_range 8 (new_queue [0, 0, 0, 0, 0, 0, 0, 0 :: nat] :: (nat, 8) LockFreeQueue)
       [1, 2, 3, 4, 5, 6, 7, 8] 8
     = Inr (True, \<lparr>buffer = [1, 2, 3, 4, 5, 6, 7, 8], writeCounter = 8, readCounter = 0\<rparr>)"
  "size_q \<lparr>buffer = [1, 2, 3, 4, 5, 6, 7, 8 :: nat], writeCounter = 8 :: 8 word, readCounter = 0\<rparr> = 8"
  "push_range 8 \<lparr>buffer = [1, 2, 3, 4, 5, 6, 7, 8 :: nat], writeCounter = 8 :: 8 word, readCounter = 0\<rparr>
       [9] 1
     = Inr (False, \<lparr>buffer = [1, 2, 3, 4, 5, 6, 7, 8], writeCounter = 8, readCounter = 0\<rparr>)"
  by (simp_all add: push_range_def push_loop.simps size_q_def mask_q_def INT32_MAX_def new_queue_def)

text \<open>
  C3. \<open>pop_range\<close> returns false exactly when \<open>length\<close> exceeds \<open>size()\<close>, and then
  the caller's array, the read position and with it the occupancy are as before the call.
\<close>

theorem pop_range_fails_iff:
  "((\<exists>q' items'. pop_range CAPACITY q items len = Inr (False, q', items'))
      \<longleftrightarrow> unat len > unat (size_q q))
   \<and> (unat len > unat (size_q q) \<longrightarrow> pop_range CAPACITY q items len = Inr (False, q, items))"
  by (auto simp add: pop_range_def split: sum.splits)

theorem pop_range_fails_iff_witness:
  "unat (3 :: uint32_t)
     > unat (size_q \<lparr>buffer = [1, 2, 3, 4, 5, 6, 7, 8 :: nat], writeCounter = 1 :: 8 word, readCounter = 255\<rparr>)
   \<and> pop_range 8 \<lparr>buffer = [1, 2, 3, 4, 5, 6, 7, 8 :: nat], writeCounter = 1 :: 8 word, readCounter = 255\<rparr>
        [0, 0, 0] 3
      = Inr (False, \<lparr>buffer = [1, 2, 3, 4, 5, 6, 7, 8], writeCounter = 1, readCounter = 255\<rparr>, [0, 0, 0])"
  using pop_range_fails_iff [where CAPACITY = 8 and len = 3 and items = "[0, 0, 0 :: nat]"
      and q = "\<lparr>buffer = [1, 2, 3, 4, 5, 6, 7, 8 :: nat], writeCounter = 1 :: 8 word, readCounter = 255\<rparr>"]
  by (simp add: size_q_def)





text \<open>
  C5. The specification has a pop of \<open>length \<le> size()\<close> elements succeed for every
  \<^verbatim>\<open>uint32_t\<close> length, also beyond the maximum of the loop counter's type. The loop counter is an
  \<^verbatim>\<open>int32_t\<close> compared with the \<^verbatim>\<open>uint32_t\<close> length. With capacity \<open>2 ^ 31\<close>, the
  default index type and a full queue, a pop of \<open>2 ^ 31\<close> elements passes the check and
  then increments the counter at \<^verbatim>\<open>INT32_MAX\<close>, which C++ leaves undefined.
\<close>

theorem pop_range_loop_counter_overflows:
  "isPowerOfTwo 2147483648
   \<and> unat (2147483648 :: uint32_t)
       \<le> unat (size_q \<lparr>buffer = replicate 2147483648 (7 :: nat), writeCounter = 2147483648 :: 32 word,
                       readCounter = 0\<rparr>)
   \<and> pop_range 2147483648
        \<lparr>buffer = replicate 2147483648 (7 :: nat), writeCounter = 2147483648 :: 32 word, readCounter = 0\<rparr>
        (replicate 2147483648 0) 2147483648 = Inl SignedOverflow"
proof -
  have "pop_loop 2147483648
        \<lparr>buffer = replicate 2147483648 (7 :: nat), writeCounter = 2147483648 :: 32 word, readCounter = 0\<rparr>
        (replicate 2147483648 0) 2147483648 0 = Inl SignedOverflow"
    by (rule pop_loop_overflow) (simp_all add: INT32_MAX_def)
  then show ?thesis by (simp add: pop_range_def size_q_def isPowerOfTwo_def)
qed

text \<open>
  For a length up to \<^verbatim>\<open>INT32_MAX\<close> both calls do what the claim says:
  \<open>pop_range_success\<close> (the array receives the first \<open>length\<close> elements in flight, in
  order, and the read position advances by \<open>length\<close>) and \<open>push_range_success\<close> with
  \<open>push_range_contents\<close> and \<open>push_range_frame\<close>.
\<close>

text \<open>
  C6. \<open>size()\<close> is the difference of the two counters modulo \<open>2 ^ LENGTH('i)\<close>. When
  \<open>P\<close> elements were pushed and \<open>Q\<close> popped in all, so that the counters are \<open>P\<close>
  and \<open>Q\<close> modulo \<open>2 ^ LENGTH('i)\<close>, and \<open>P - Q\<close> fits the index type, it is
  \<open>P - Q\<close>. It is a function of the queue that returns a number and no queue: it has no
  effect.
\<close>

theorem size_q_modular_difference:
  fixes q :: "('T, 'i::len) LockFreeQueue"
  shows "uint (size_q q) = (uint (writeCounter q) - uint (readCounter q)) mod 2 ^ LENGTH('i)
     \<and> (writeCounter q = of_nat P \<and> readCounter q = of_nat Q \<and> Q \<le> P \<and> P - Q < 2 ^ LENGTH('i)
          \<longrightarrow> unat (size_q q) = P - Q)"
proof (intro conjI impI)
  show "uint (size_q q) = (uint (writeCounter q) - uint (readCounter q)) mod 2 ^ LENGTH('i)"
    by (simp add: size_q_def uint_word_ariths)
next
  assume a: "writeCounter q = of_nat P \<and> readCounter q = of_nat Q \<and> Q \<le> P \<and> P - Q < 2 ^ LENGTH('i)"
  then have eq: "size_q q = of_nat (P - Q)" by (simp add: size_q_def)
  from a have "P - Q < 2 ^ LENGTH('i)" by simp
  then have "unat (of_nat (P - Q) :: 'i word) = P - Q"
    by (simp only: unat_of_nat mod_less)
  then show "unat (size_q q) = P - Q" by (simp only: eq)
qed

theorem size_q_modular_difference_witness:
  "(4 :: 8 word) = of_nat 260 \<and> (250 :: 8 word) = of_nat 250 \<and> (250 :: nat) \<le> 260
   \<and> (260 :: nat) - 250 < 2 ^ LENGTH(8)
   \<and> unat (size_q \<lparr>buffer = [] :: nat list, writeCounter = 4 :: 8 word, readCounter = 250\<rparr>) = 260 - 250
   \<and> uint (size_q \<lparr>buffer = [] :: nat list, writeCounter = 4 :: 8 word, readCounter = 250\<rparr>)
       = (4 - 250) mod 2 ^ LENGTH(8)"
  using size_q_modular_difference
    [where q = "\<lparr>buffer = [] :: nat list, writeCounter = 4 :: 8 word, readCounter = 250\<rparr>"
       and P = 260 and Q = 250]
  by simp

text \<open>
  C7. For a capacity \<open>2 ^ k\<close> the slot of the logical position \<open>n\<close> is
  \<open>n AND (CAPACITY - 1)\<close>, which is \<open>n mod CAPACITY\<close> and so less than \<open>CAPACITY\<close>;
  in a queue whose array has \<open>CAPACITY\<close> elements neither call accesses the array out
  of range.
\<close>

theorem mask_q_mod_capacity:
  fixes n :: "'i::len word" and q :: "('T, 'i) LockFreeQueue"
  assumes "k < 32"
  shows "mask_q (2 ^ k) n = n AND ucast ((2 ^ k :: uint32_t) - 1)
     \<and> unat (mask_q (2 ^ k) n) = unat n mod unat (2 ^ k :: uint32_t)
     \<and> unat (mask_q (2 ^ k) n) < unat (2 ^ k :: uint32_t)
     \<and> (length (buffer q) = unat (2 ^ k :: uint32_t)
          \<longrightarrow> push_range (2 ^ k) q items len \<noteq> Inl BufferOutOfBounds
            \<and> pop_range (2 ^ k) q dest len' \<noteq> Inl BufferOutOfBounds)"
proof -
  have u: "unat (2 ^ k :: uint32_t) = 2 ^ k" using assms by (simp add: unat_2p)
  then have nz: "(2 ^ k :: uint32_t) \<noteq> 0" by (metis power_not_zero unat_0 zero_neq_numeral)
  have "unat (mask_q (2 ^ k) n) = unat n mod unat (2 ^ k :: uint32_t)"
    using mask_q_pow [OF assms, of n] u by simp
  moreover have "unat (mask_q (2 ^ k) n) < unat (2 ^ k :: uint32_t)"
    by (rule mask_q_less [OF nz])
  moreover have "mask_q (2 ^ k) n = n AND ucast ((2 ^ k :: uint32_t) - 1)"
    by (simp add: mask_q_def)
  ultimately show ?thesis
    using push_range_no_oob [of q "2 ^ k" items len] pop_range_no_oob [of q "2 ^ k" dest len'] nz
    by blast
qed

theorem mask_q_mod_capacity_witness:
  "(3 :: nat) < 32
   \<and> unat (mask_q (2 ^ 3) (253 :: 8 word)) = unat (253 :: 8 word) mod unat (2 ^ 3 :: uint32_t)
   \<and> unat (mask_q (2 ^ 3) (253 :: 8 word)) = 5
   \<and> unat (mask_q (2 ^ 3) (253 :: 8 word)) < unat (2 ^ 3 :: uint32_t)
   \<and> length (buffer \<lparr>buffer = [1, 2, 3, 4, 5, 6, 7, 8 :: nat], writeCounter = 255 :: 8 word,
                      readCounter = 253\<rparr>) = unat (2 ^ 3 :: uint32_t)
   \<and> push_range (2 ^ 3) \<lparr>buffer = [1, 2, 3, 4, 5, 6, 7, 8 :: nat], writeCounter = 255 :: 8 word,
                          readCounter = 253\<rparr> [9, 10] 2 \<noteq> Inl BufferOutOfBounds
   \<and> pop_range (2 ^ 3) \<lparr>buffer = [1, 2, 3, 4, 5, 6, 7, 8 :: nat], writeCounter = 255 :: 8 word,
                         readCounter = 253\<rparr> [0, 0] 2 \<noteq> Inl BufferOutOfBounds"
proof -
  have k: "(3 :: nat) < 32" by simp
  have m: "unat (mask_q (2 ^ 3) (253 :: 8 word)) = 5" by (simp add: mask_q_def)
  from mask_q_mod_capacity [OF k, where n = "253 :: 8 word" and items = "[9, 10]" and len = 2
      and dest = "[0, 0]" and len' = 2
      and q = "\<lparr>buffer = [1, 2, 3, 4, 5, 6, 7, 8 :: nat], writeCounter = 255 :: 8 word, readCounter = 253\<rparr>"]
    k m
  show ?thesis by simp
qed

text \<open>
  C8. The specification has the capacity check accept exactly the positive powers of two.
  The check \<^verbatim>\<open>(n & (n - 1)) == 0\<close> accepts 0, which is no power of two, so
  \<^verbatim>\<open>static_assert(isPowerOfTwo(CAPACITY), "Capacity must be a power of 2")\<close> passes for
  capacity 0. For every other value the check is right (\<open>isPowerOfTwo_iff\<close>).
\<close>

theorem isPowerOfTwo_accepts_zero:
  "isPowerOfTwo 0 \<and> \<not> (\<exists>k. unat (0 :: uint32_t) = 2 ^ k)"
  by (simp add: isPowerOfTwo_def)

text \<open>
  C9. \<open>push_range\<close> leaves the read counter as it was; \<open>pop_range\<close> leaves the write
  counter and every slot of the array as they were.
\<close>

theorem range_calls_frame:
  "(push_range C q items len = Inr (ok, q') \<longrightarrow> readCounter q' = readCounter q)
   \<and> (pop_range C q dest len' = Inr (ok', q'', dest')
        \<longrightarrow> writeCounter q'' = writeCounter q \<and> buffer q'' = buffer q)"
proof (intro conjI impI)
  assume "push_range C q items len = Inr (ok, q')"
  then show "readCounter q' = readCounter q"
    using push_range_frame [of C q items len q'] push_range_False [of C q items len q']
    by (cases ok) simp_all
next
  assume p: "pop_range C q dest len' = Inr (ok', q'', dest')"
  then show "writeCounter q'' = writeCounter q"
    using pop_range_frame [of C q dest len' q'' dest'] pop_range_False [of C q dest len' q'' dest']
    by (cases ok') simp_all
  from p show "buffer q'' = buffer q"
    using pop_range_frame [of C q dest len' q'' dest'] pop_range_False [of C q dest len' q'' dest']
    by (cases ok') simp_all
qed

theorem range_calls_frame_witness:
  "push_range 8 \<lparr>buffer = [1, 2, 3, 4, 5, 6, 7, 8 :: nat], writeCounter = 255 :: 8 word, readCounter = 253\<rparr>
       [9, 10] 2
     = Inr (True, \<lparr>buffer = [10, 2, 3, 4, 5, 6, 7, 9], writeCounter = 1, readCounter = 253\<rparr>)
   \<and> readCounter \<lparr>buffer = [10, 2, 3, 4, 5, 6, 7, 9 :: nat], writeCounter = 1 :: 8 word, readCounter = 253\<rparr>
       = 253
   \<and> pop_range 8 \<lparr>buffer = [1, 2, 3, 4, 5, 6, 7, 8 :: nat], writeCounter = 255 :: 8 word, readCounter = 253\<rparr>
       [0, 0] 2
     = Inr (True, \<lparr>buffer = [1, 2, 3, 4, 5, 6, 7, 8], writeCounter = 255, readCounter = 255\<rparr>, [6, 7])"
proof -
  have push: "push_range 8 \<lparr>buffer = [1, 2, 3, 4, 5, 6, 7, 8 :: nat], writeCounter = 255 :: 8 word, readCounter = 253\<rparr>
       [9, 10] 2
     = Inr (True, \<lparr>buffer = [10, 2, 3, 4, 5, 6, 7, 9], writeCounter = 1, readCounter = 253\<rparr>)"
    by (simp add: push_range_def push_loop.simps size_q_def mask_q_def INT32_MAX_def)
  have pop: "pop_range 8 \<lparr>buffer = [1, 2, 3, 4, 5, 6, 7, 8 :: nat], writeCounter = 255 :: 8 word, readCounter = 253\<rparr>
       [0, 0] 2
     = Inr (True, \<lparr>buffer = [1, 2, 3, 4, 5, 6, 7, 8], writeCounter = 255, readCounter = 255\<rparr>, [6, 7])"
    by (simp add: pop_range_def pop_loop.simps size_q_def mask_q_def INT32_MAX_def)
  from range_calls_frame [THEN conjunct1, rule_format, OF push]
    range_calls_frame [THEN conjunct2, rule_format, OF pop] push pop
  show ?thesis by simp
qed

text \<open>
  C10. A push of no element into a queue whose occupancy is within its capacity (empty,
  full or between), so into every state that a sequence of calls reaches from a fresh
  queue, and a pop of no element from any queue return true and leave the counters, the
  array and the caller's array as they were.
\<close>

theorem zero_length_calls:
  fixes q :: "('T, 'i::len) LockFreeQueue"
  shows "(unat (size_q q) \<le> unat CAPACITY \<longrightarrow> push_range CAPACITY q items 0 = Inr (True, q))
   \<and> (run_calls CAPACITY (new_queue mem, [], []) cs = Inr (q, pushed, popped)
        \<longrightarrow> push_range CAPACITY q items 0 = Inr (True, q))
   \<and> pop_range CAPACITY q dest 0 = Inr (True, q, dest)"
proof -
  have "unat (size_q q) < 2 ^ LENGTH('i)" by simp
  also have "(2::nat) ^ LENGTH('i) \<le> 2 ^ max 32 LENGTH('i)"
    by (intro power_increasing) simp_all
  finally have "unat (size_q q) mod 2 ^ max 32 LENGTH('i) = unat (size_q q)" by simp
  then have push: "push_range CAPACITY q items 0 = Inr (True, q)"
    if "unat (size_q q) \<le> unat CAPACITY"
    using that by (simp add: push_range_def push_loop_exit)
  have reach: "unat (size_q q) \<le> unat CAPACITY"
    if "run_calls CAPACITY (new_queue mem, [], []) cs = Inr (q, pushed, popped)"
    using that by (rule run_calls_size) (simp add: size_new_queue)
  have "pop_range CAPACITY q dest 0 = Inr (True, q, dest)"
    by (simp add: pop_range_def pop_loop_exit)
  with push reach show ?thesis by blast
qed

theorem zero_length_calls_witness:
  "run_calls 8 (new_queue [0, 0, 0, 0, 0, 0, 0, 0 :: nat] :: (nat, 8) LockFreeQueue, [], [])
       [Push [1, 2, 3, 4, 5, 6, 7, 8] 8]
     = Inr (\<lparr>buffer = [1, 2, 3, 4, 5, 6, 7, 8], writeCounter = 8, readCounter = 0\<rparr>,
            [1, 2, 3, 4, 5, 6, 7, 8], [])
   \<and> unat (size_q \<lparr>buffer = [1, 2, 3, 4, 5, 6, 7, 8 :: nat], writeCounter = 8 :: 8 word, readCounter = 0\<rparr>)
      \<le> unat (8 :: uint32_t)
   \<and> push_range 8 \<lparr>buffer = [1, 2, 3, 4, 5, 6, 7, 8 :: nat], writeCounter = 8 :: 8 word, readCounter = 0\<rparr>
        [] 0
      = Inr (True, \<lparr>buffer = [1, 2, 3, 4, 5, 6, 7, 8], writeCounter = 8, readCounter = 0\<rparr>)
   \<and> pop_range 8 \<lparr>buffer = [1, 2, 3, 4, 5, 6, 7, 8 :: nat], writeCounter = 8 :: 8 word, readCounter = 0\<rparr>
        [] 0
      = Inr (True, \<lparr>buffer = [1, 2, 3, 4, 5, 6, 7, 8], writeCounter = 8, readCounter = 0\<rparr>, [])"
proof -
  have run: "run_calls 8 (new_queue [0, 0, 0, 0, 0, 0, 0, 0 :: nat] :: (nat, 8) LockFreeQueue, [], [])
       [Push [1, 2, 3, 4, 5, 6, 7, 8] 8]
     = Inr (\<lparr>buffer = [1, 2, 3, 4, 5, 6, 7, 8], writeCounter = 8, readCounter = 0\<rparr>,
            [1, 2, 3, 4, 5, 6, 7, 8], [])"
    by (simp add: push_range_def push_loop.simps size_q_def mask_q_def INT32_MAX_def new_queue_def)
  have sz: "unat (size_q \<lparr>buffer = [1, 2, 3, 4, 5, 6, 7, 8 :: nat], writeCounter = 8 :: 8 word,
                          readCounter = 0\<rparr>) \<le> unat (8 :: uint32_t)"
    by (simp add: size_q_def)
  note z = zero_length_calls
    [where CAPACITY = 8 and items = "[]" and dest = "[]" and cs = "[Push [1, 2, 3, 4, 5, 6, 7, 8] 8]"
       and mem = "[0, 0, 0, 0, 0, 0, 0, 0]" and pushed = "[1, 2, 3, 4, 5, 6, 7, 8]" and popped = "[]"
       and q = "\<lparr>buffer = [1, 2, 3, 4, 5, 6, 7, 8 :: nat], writeCounter = 8 :: 8 word, readCounter = 0\<rparr>"]
  from z [THEN conjunct2, THEN conjunct1, rule_format, OF run] z [THEN conjunct2, THEN conjunct2]
    run sz
  show ?thesis by simp
qed

end
